theory Spec2Isabelle
  imports Main "HOL-Library.Word"
begin

unbundle bit_operations_syntax

section \<open>The quad decoder of h5ld (src/h5ld/adf.py)\<close>

text \<open>
  The class \<^verbatim>\<open>AllotropeDF\<close> reads three arrays from an HDF5 file (the quad table, the
  dictionary key table and the byte store) and writes one N-Quads line for every good row.
  The arrays are the inputs of the model; reading them from the file is not modelled.
  A Python exception is a value \<open>Inl e\<close> of a sum type, a returned value is \<open>Inr v\<close>.
\<close>

subsection \<open>Data\<close>

type_synonym byte = "8 word"
type_synonym i32 = "32 word"
type_synonym i64 = "64 word"

text \<open>A Python \<^verbatim>\<open>str\<close> is a sequence of Unicode code points.\<close>

type_synonym str = "nat list"

datatype error =
  IndexError
  | ValueError
  | UnicodeDecodeError
  | UnicodeEncodeError
  | ParseError
  | PluginException
  | OSError

text \<open>
  The element type of the key table is the dtype of the dataset in the file, which the
  source takes as it comes: one byte per element, read as signed or unsigned.
\<close>

datatype dtype = Int8 | UInt8

record dictionary =
  key_store :: "byte list list"
  key_dtype :: dtype
  str_store :: "byte list"

text \<open>
  The dataset \<^verbatim>\<open>/data-description/quads\<close> (rows of \<^verbatim>\<open>int64\<close>, the last column the
  validity flag) and its attribute \<^verbatim>\<open>size\<close>.
\<close>

record quad_table =
  rows :: "i64 list list"
  size_attr :: int

subsection \<open>Python and numpy primitives\<close>

definition str_of :: "string \<Rightarrow> str" where
  "str_of s = map of_char s"

definition elem :: "dtype \<Rightarrow> byte \<Rightarrow> int" where
  "elem dt b = (case dt of Int8 \<Rightarrow> sint b | UInt8 \<Rightarrow> uint b)"

text \<open>Indexing a sequence of length \<open>n\<close>: a negative index counts from the end.\<close>

definition py_index :: "nat \<Rightarrow> int \<Rightarrow> error + nat" where
  "py_index n i =
     (if 0 \<le> i \<and> i < int n then Inr (nat i)
      else if - int n \<le> i \<and> i < 0 then Inr (nat (i + int n))
      else Inl IndexError)"

text \<open>The slice \<^verbatim>\<open>xs[start:stop]\<close>: both ends are clamped, never an error.\<close>

definition py_slice :: "'a list \<Rightarrow> int \<Rightarrow> int \<Rightarrow> 'a list" where
  "py_slice xs start stop =
     (let n = int (length xs);
          a = (if start < 0 then max (start + n) 0 else min start n);
          b = (if stop < 0 then max (stop + n) 0 else min stop n)
      in take (nat (b - a)) (drop (nat a) xs))"

text \<open>
  \<^verbatim>\<open>np.frombuffer(buf, dtype)[0]\<close> for a dtype of \<open>itemsize\<close> bytes: the buffer must be a
  whole number of items, and item 0 must exist. The result is the bytes of item 0.
\<close>

definition frombuffer0 :: "nat \<Rightarrow> byte list \<Rightarrow> error + byte list" where
  "frombuffer0 itemsize buf =
     (if length buf mod itemsize \<noteq> 0 then Inl ValueError
      else if buf = [] then Inl IndexError
      else Inr (take itemsize buf))"

text \<open>Big-endian bytes as a word (\<^verbatim>\<open>>i8\<close>, \<^verbatim>\<open>>i4\<close>); \<open>sint\<close> reads the sign.\<close>

definition be_word :: "byte list \<Rightarrow> 'a::len word" where
  "be_word bs = foldl (\<lambda>acc b. push_bit 8 acc OR ucast b) 0 bs"

text \<open>\<^verbatim>\<open>s.replace(old, new)\<close> where \<open>old\<close> is one character, as in all calls of the source.\<close>

definition replace :: "nat \<Rightarrow> str \<Rightarrow> str \<Rightarrow> str" where
  "replace old new s = concat (map (\<lambda>c. if c = old then new else [c]) s)"

fun join :: "str \<Rightarrow> str list \<Rightarrow> str" where
  "join sep [] = []"
| "join sep [x] = x"
| "join sep (x # y # ys) = x @ sep @ join sep (y # ys)"

subsection \<open>UTF-8\<close>

text \<open>
  \<^verbatim>\<open>bytes.decode("utf-8")\<close> is strict: overlong forms, surrogates and code points above
  U+10FFFF raise \<^verbatim>\<open>UnicodeDecodeError\<close>.
\<close>

definition in_range :: "byte \<Rightarrow> nat \<Rightarrow> nat \<Rightarrow> bool" where
  "in_range b lo hi = (lo \<le> unat b \<and> unat b \<le> hi)"

definition cont_bits :: "byte \<Rightarrow> nat" where
  "cont_bits b = unat b mod 64"

definition prepend :: "nat \<Rightarrow> error + str \<Rightarrow> error + str" where
  "prepend c r = (case r of Inl e \<Rightarrow> Inl e | Inr s \<Rightarrow> Inr (c # s))"

fun utf8_decode :: "byte list \<Rightarrow> error + str" where
  "utf8_decode [] = Inr []"
| "utf8_decode (b0 # bs) =
     (if unat b0 < 0x80 then prepend (unat b0) (utf8_decode bs)
      else if in_range b0 0xC2 0xDF then
        (case bs of
           b1 # r1 \<Rightarrow>
             if in_range b1 0x80 0xBF
             then prepend (unat b0 mod 32 * 64 + cont_bits b1) (utf8_decode r1)
             else Inl UnicodeDecodeError
         | _ \<Rightarrow> Inl UnicodeDecodeError)
      else if in_range b0 0xE0 0xEF then
        (case bs of
           b1 # b2 # r2 \<Rightarrow>
             if in_range b1 (if unat b0 = 0xE0 then 0xA0 else 0x80)
                            (if unat b0 = 0xED then 0x9F else 0xBF)
                \<and> in_range b2 0x80 0xBF
             then prepend (unat b0 mod 16 * 4096 + cont_bits b1 * 64 + cont_bits b2)
                    (utf8_decode r2)
             else Inl UnicodeDecodeError
         | _ \<Rightarrow> Inl UnicodeDecodeError)
      else if in_range b0 0xF0 0xF4 then
        (case bs of
           b1 # b2 # b3 # r3 \<Rightarrow>
             if in_range b1 (if unat b0 = 0xF0 then 0x90 else 0x80)
                            (if unat b0 = 0xF4 then 0x8F else 0xBF)
                \<and> in_range b2 0x80 0xBF \<and> in_range b3 0x80 0xBF
             then prepend (unat b0 mod 8 * 262144 + cont_bits b1 * 4096
                           + cont_bits b2 * 64 + cont_bits b3)
                    (utf8_decode r3)
             else Inl UnicodeDecodeError
         | _ \<Rightarrow> Inl UnicodeDecodeError)
      else Inl UnicodeDecodeError)"

definition encode_cp :: "nat \<Rightarrow> error + byte list" where
  "encode_cp c =
     (if c < 0x80 then Inr [of_nat c]
      else if c < 0x800 then Inr [of_nat (0xC0 + c div 64), of_nat (0x80 + c mod 64)]
      else if 0xD800 \<le> c \<and> c \<le> 0xDFFF then Inl UnicodeEncodeError
      else if c < 0x10000 then
        Inr [of_nat (0xE0 + c div 4096), of_nat (0x80 + c div 64 mod 64),
             of_nat (0x80 + c mod 64)]
      else if c < 0x110000 then
        Inr [of_nat (0xF0 + c div 262144), of_nat (0x80 + c div 4096 mod 64),
             of_nat (0x80 + c div 64 mod 64), of_nat (0x80 + c mod 64)]
      else Inl UnicodeEncodeError)"

fun utf8_encode :: "str \<Rightarrow> error + byte list" where
  "utf8_encode [] = Inr []"
| "utf8_encode (c # cs) =
     (case encode_cp c of
        Inl e \<Rightarrow> Inl e
      | Inr bs \<Rightarrow> (case utf8_encode cs of Inl e \<Rightarrow> Inl e | Inr r \<Rightarrow> Inr (bs @ r)))"

subsection \<open>The dictionary: \<^verbatim>\<open>_get_string\<close>\<close>

text \<open>
  \<^verbatim>\<open>value = self.key_store[key, :]\<close>; a last element above 0 is the length of an inline
  string, otherwise \<^verbatim>\<open>value[:8]\<close> and \<^verbatim>\<open>value[8:-1]\<close> are read as \<^verbatim>\<open>>i8\<close> and \<^verbatim>\<open>>i4\<close>
  and the string is \<^verbatim>\<open>self.str_store[start : start + count]\<close>. The sum of the two numpy
  scalars is an \<^verbatim>\<open>int64\<close> and wraps.
\<close>

definition get_string :: "dictionary \<Rightarrow> i64 \<Rightarrow> error + str" where
  "get_string ds key =
     (case py_index (length (key_store ds)) (sint key) of
        Inl e \<Rightarrow> Inl e
      | Inr k \<Rightarrow>
          let value = key_store ds ! k in
          if value = [] then Inl IndexError
          else if elem (key_dtype ds) (last value) > 0
          then utf8_decode (py_slice value 0 (elem (key_dtype ds) (last value)))
          else
            (case frombuffer0 8 (py_slice value 0 8) of
               Inl e \<Rightarrow> Inl e
             | Inr sb \<Rightarrow>
                 (case frombuffer0 4 (py_slice value 8 (- 1)) of
                    Inl e \<Rightarrow> Inl e
                  | Inr cb \<Rightarrow>
                      let start = (be_word sb :: i64);
                          count = (be_word cb :: i32)
                      in utf8_decode
                           (py_slice (str_store ds) (sint start)
                              (sint (start + scast count))))))"

subsection \<open>Node strings\<close>

definition resource_node :: "dictionary \<Rightarrow> i64 \<Rightarrow> i64 \<Rightarrow> error + str" where
  "resource_node ds res_key val_key =
     (case get_string ds val_key of
        Inl e \<Rightarrow> Inl e
      | Inr val \<Rightarrow>
          (case get_string ds res_key of
             Inl e \<Rightarrow> Inl e
           | Inr res \<Rightarrow> Inr (str_of ''<'' @ res @ val @ str_of ''>'')))"

text \<open>
  The seven \<^verbatim>\<open>replace\<close> calls of \<^verbatim>\<open>_literal_node\<close>, innermost first. The code points:
  \<open>0x22\<close> double quote, \<open>0x27\<close> single quote, \<open>0x5C\<close> backslash, 9 tab, 10 newline,
  13 carriage return, 8 backspace, 12 form feed.
\<close>

definition escape :: "str \<Rightarrow> str" where
  "escape val =
     replace 12 (0x5C # str_of ''f'')
       (replace 8 (0x5C # str_of ''b'')
          (replace 13 (0x5C # str_of ''r'')
             (replace 10 (0x5C # str_of ''n'')
                (replace 9 (0x5C # str_of ''t'')
                   (replace 0x27 [0x5C, 0x27]
                      (replace 0x22 [0x5C, 0x22] val))))))"

definition literal_node :: "dictionary \<Rightarrow> i64 \<Rightarrow> i64 \<Rightarrow> error + str" where
  "literal_node ds res_key val_key =
     (case get_string ds val_key of
        Inl e \<Rightarrow> Inl e
      | Inr val \<Rightarrow>
          if res_key = 0 then Inr ([0x22] @ escape val @ [0x22])
          else
            (case get_string ds res_key of
               Inl e \<Rightarrow> Inl e
             | Inr res \<Rightarrow>
                 Inr ([0x22] @ escape val @ [0x22] @ str_of ''^^<'' @ res @ str_of ''>'')))"

text \<open>\<^verbatim>\<open>val[0]\<close> raises \<^verbatim>\<open>IndexError\<close> on the empty string.\<close>

definition blank_node :: "dictionary \<Rightarrow> i64 \<Rightarrow> i64 \<Rightarrow> error + str" where
  "blank_node ds res_key val_key =
     (case get_string ds val_key of
        Inl e \<Rightarrow> Inl e
      | Inr val \<Rightarrow>
          (case val of
             [] \<Rightarrow> Inl IndexError
           | c # cs \<Rightarrow>
               Inr (str_of ''_:'' @ (if c = of_char CHR ''-'' then cs else val))))"

subsection \<open>Bit fields of a node reference\<close>

definition node_id_31bit_mask :: i64 where
  "node_id_31bit_mask = 0x7FFFFFFF"

definition node_value_key :: "i64 \<Rightarrow> i64" where
  "node_value_key w = w AND node_id_31bit_mask"

text \<open>
  \<^verbatim>\<open>np.right_shift(quad, 31, out=quad)\<close> overwrites the row with its shifted value; on
  \<^verbatim>\<open>int64\<close> the shift is arithmetic. \<open>shifted\<close> is the content of the row from then on.
\<close>

definition shifted :: "i64 \<Rightarrow> i64" where
  "shifted w = signed_drop_bit 31 w"

definition node_key :: "i64 \<Rightarrow> i64" where
  "node_key w = shifted w AND node_id_31bit_mask"

definition node_kind :: "i64 \<Rightarrow> i64" where
  "node_kind w = signed_drop_bit 31 (shifted w) AND 3"

subsection \<open>Rows and lines: \<^verbatim>\<open>_get_quads\<close>\<close>

definition template :: "(dictionary \<Rightarrow> i64 \<Rightarrow> i64 \<Rightarrow> error + str) list" where
  "template = [blank_node, resource_node, literal_node]"

text \<open>
  One slot: \<^verbatim>\<open>template[node_kind[i]](res_key=node_key[i], val_key=node_value_key[i])\<close>.
  The list has three entries, so kind 3 raises \<^verbatim>\<open>IndexError\<close>.
\<close>

definition render_node :: "dictionary \<Rightarrow> i64 \<Rightarrow> error + str" where
  "render_node ds w =
     (case py_index (length template) (sint (node_kind w)) of
        Inl e \<Rightarrow> Inl e
      | Inr k \<Rightarrow> (template ! k) ds (node_key w) (node_value_key w))"

text \<open>The inner loop over the slots of a row; it stops at the first exception.\<close>

fun quad_content :: "dictionary \<Rightarrow> i64 list \<Rightarrow> error + str list" where
  "quad_content ds [] = Inr []"
| "quad_content ds (w # ws) =
     (case render_node ds w of
        Inl e \<Rightarrow> Inl e
      | Inr s \<Rightarrow>
          (case quad_content ds ws of
             Inl e \<Rightarrow> Inl e
           | Inr ss \<Rightarrow> Inr (s # ss)))"

text \<open>
  The text passed to \<^verbatim>\<open>store.write\<close> for one row:
  \<^verbatim>\<open>" ".join(quad_content[1:]) + f" {quad_content[0]}" + " .\n"\<close>.
\<close>

definition quad_line :: "dictionary \<Rightarrow> i64 list \<Rightarrow> error + str" where
  "quad_line ds quad =
     (case quad_content ds quad of
        Inl e \<Rightarrow> Inl e
      | Inr qc \<Rightarrow>
          (case qc of
             [] \<Rightarrow> Inl IndexError
           | g # spo \<Rightarrow> Inr (join (str_of '' '') spo @ str_of '' '' @ g @ str_of '' .'' @ [10])))"

text \<open>\<^verbatim>\<open>quads[quads[:, -1] == 0, :-1]\<close>: the rows whose last column is 0, without it.\<close>

definition filter_quads :: "i64 list list \<Rightarrow> error + i64 list list" where
  "filter_quads qs =
     (if [] \<in> set qs then Inl IndexError
      else Inr (map butlast (filter (\<lambda>r. last r = 0) qs)))"

text \<open>
  The loop \<^verbatim>\<open>for qrow in range(num_quads)\<close> over the filtered array \<open>quads\<close>. The store is
  the content of the internal buffer: the text layer encodes what is written as UTF-8
  (with a line separator of \<^verbatim>\<open>"\n"\<close> its newline translation changes nothing).
\<close>

fun quads_loop ::
  "dictionary \<Rightarrow> int \<Rightarrow> i64 list list \<Rightarrow> nat list \<Rightarrow> byte list \<Rightarrow> byte list \<times> (error + unit)"
where
  "quads_loop ds num_good_quads quads [] store = (store, Inr ())"
| "quads_loop ds num_good_quads quads (qrow # rest) store =
     (if int qrow \<ge> num_good_quads then (store, Inr ())
      else
        (case py_index (length quads) (int qrow) of
           Inl e \<Rightarrow> (store, Inl e)
         | Inr r \<Rightarrow>
             (case quad_line ds (quads ! r) of
                Inl e \<Rightarrow> (store, Inl e)
              | Inr line \<Rightarrow>
                  (case utf8_encode line of
                     Inl e \<Rightarrow> (store, Inl e)
                   | Inr bs \<Rightarrow> quads_loop ds num_good_quads quads rest (store @ bs)))))"

definition get_quads ::
  "dictionary \<Rightarrow> quad_table \<Rightarrow> byte list \<Rightarrow> byte list \<times> (error + unit)"
where
  "get_quads ds tbl store =
     (let num_quads = length (rows tbl);
          num_good_quads = size_attr tbl
      in case filter_quads (rows tbl) of
           Inl e \<Rightarrow> (store, Inl e)
         | Inr quads \<Rightarrow> quads_loop ds num_good_quads quads [0..<num_quads] store)"

subsection \<open>Writing the result: \<^verbatim>\<open>dump_ld\<close>\<close>






subsection \<open>Decode-time failures in terms of the input\<close>

text \<open>
  The bytes that \<^verbatim>\<open>_get_string\<close> passes to \<^verbatim>\<open>decode("utf-8")\<close>: the same steps without
  the decoding.
\<close>

definition key_bytes :: "dictionary \<Rightarrow> i64 \<Rightarrow> error + byte list" where
  "key_bytes ds key =
     (case py_index (length (key_store ds)) (sint key) of
        Inl e \<Rightarrow> Inl e
      | Inr k \<Rightarrow>
          let value = key_store ds ! k in
          if value = [] then Inl IndexError
          else if elem (key_dtype ds) (last value) > 0
          then Inr (py_slice value 0 (elem (key_dtype ds) (last value)))
          else
            (case frombuffer0 8 (py_slice value 0 8) of
               Inl e \<Rightarrow> Inl e
             | Inr sb \<Rightarrow>
                 (case frombuffer0 4 (py_slice value 8 (- 1)) of
                    Inl e \<Rightarrow> Inl e
                  | Inr cb \<Rightarrow>
                      let start = (be_word sb :: i64);
                          count = (be_word cb :: i32)
                      in Inr (py_slice (str_store ds) (sint start)
                                (sint (start + scast count))))))"



definition invalid_utf8 :: "dictionary \<Rightarrow> i64 \<Rightarrow> bool" where
  "invalid_utf8 ds key =
     (case key_bytes ds key of
        Inl e \<Rightarrow> False
      | Inr bs \<Rightarrow> utf8_decode bs = Inl UnicodeDecodeError)"


subsection \<open>The layout and the escapes as the specification words them\<close>

text \<open>
  Section 3 of the specification: \<open>kind\<close> in bits 63-62, \<open>resource_key\<close> in bits 61-31,
  \<open>value_key\<close> in bits 30-0. The source has no encoder; this is the one the round trip
  is stated against.
\<close>

definition pack :: "nat \<Rightarrow> nat \<Rightarrow> nat \<Rightarrow> i64" where
  "pack kind resource_key value_key =
     push_bit 62 (of_nat kind) OR push_bit 31 (of_nat resource_key) OR of_nat value_key"

text \<open>
  Section 4.2 of the specification: the substitutions, in its order, applied one after
  the other; and what they amount to for a single character.
\<close>

definition escape_table :: "(nat \<times> str) list" where
  "escape_table =
     [(0x22, [0x5C, 0x22]), (0x27, [0x5C, 0x27]), (9, [0x5C, 0x74]), (10, [0x5C, 0x6E]),
      (13, [0x5C, 0x72]), (8, [0x5C, 0x62]), (12, [0x5C, 0x66])]"

definition escape_in_order :: "str \<Rightarrow> str" where
  "escape_in_order v = foldl (\<lambda>s (old, new). replace old new s) v escape_table"

definition escape_char :: "nat \<Rightarrow> str" where
  "escape_char c =
     (if c = 0x22 then [0x5C, 0x22]
      else if c = 0x27 then [0x5C, 0x27]
      else if c = 9 then [0x5C, 0x74]
      else if c = 10 then [0x5C, 0x6E]
      else if c = 13 then [0x5C, 0x72]
      else if c = 8 then [0x5C, 0x62]
      else if c = 12 then [0x5C, 0x66]
      else [c])"

subsection \<open>Example inputs\<close>

definition bytes_of :: "string \<Rightarrow> byte list" where
  "bytes_of s = map of_char s"

text \<open>A direct-mode row of width \<open>w\<close>: the string, zero padding, and the length byte.\<close>

definition direct_row :: "nat \<Rightarrow> string \<Rightarrow> byte list" where
  "direct_row w s = bytes_of s @ replicate (w - 1 - length s) 0 @ [of_nat (length s)]"

text \<open>
  A key table of width 13. Keys 5, 6 and 7 are indirect: offset 10 and length 3,
  offset 15 and length 4 (two bytes beyond the 17 bytes of the store), offset 0 and
  length 0. Key 9 holds the four characters \<open>a\<close>, double quote, newline, backslash.
\<close>

definition ex_dict :: dictionary where
  "ex_dict =
     \<lparr>key_store =
        [direct_row 13 ''g1'',
         direct_row 13 ''http://ex/'',
         direct_row 13 ''s'',
         direct_row 13 ''p'',
         direct_row 13 ''hello'',
         [0, 0, 0, 0, 0, 0, 0, 10, 0, 0, 0, 3, 0],
         [0, 0, 0, 0, 0, 0, 0, 15, 0, 0, 0, 4, 0],
         [0, 0, 0, 0, 0, 0, 0, 0, 0, 0, 0, 0, 0],
         direct_row 13 ''-b1'',
         [0x61, 0x22, 0x0A, 0x5C, 0, 0, 0, 0, 0, 0, 0, 0, 4]],
      key_dtype = UInt8,
      str_store = bytes_of ''xxxxxxxxxxbarxxxx''\<rparr>"

text \<open>A key table of width 14: key 0 indirect (offset 10, length 3), key 1 direct.\<close>

definition ex_dict14 :: dictionary where
  "ex_dict14 =
     \<lparr>key_store =
        [[0, 0, 0, 0, 0, 0, 0, 10, 0, 0, 0, 3, 0, 0],
         direct_row 14 ''foo''],
      key_dtype = UInt8,
      str_store = bytes_of ''xxxxxxxxxxbarxxxx''\<rparr>"

text \<open>
  Rows without the flag column, in column order graph, subject, predicate, object: a
  blank graph \<open>g1\<close>, two resources and a literal; the same with the literal taken from
  key 6; the same with an object of kind 3.
\<close>

definition ex_quad :: "i64 list" where
  "ex_quad = [pack 0 0 0, pack 1 1 2, pack 1 1 3, pack 2 0 4]"




text \<open>Two rows, the second flagged invalid, with a \<open>size\<close> attribute of 2.\<close>

definition ex_table_short :: quad_table where
  "ex_table_short = \<lparr>rows = [ex_quad @ [0], ex_quad @ [1]], size_attr = 2\<rparr>"










text \<open>The bytes of the line of \<open>ex_quad\<close> and of \<open>ex_quad_oob\<close>.\<close>

definition ex_line :: "byte list" where
  "ex_line = bytes_of ''<http://ex/s> <http://ex/p> '' @ [0x22] @ bytes_of ''hello'' @ [0x22]
             @ bytes_of '' _:g1 .'' @ [10]"


section \<open>Properties\<close>

subsection \<open>Sequences\<close>

lemma py_index_in_range: "0 \<le> i \<Longrightarrow> i < int n \<Longrightarrow> py_index n i = Inr (nat i)"
  by (simp add: py_index_def)

lemma py_slice_prefix: "0 \<le> n \<Longrightarrow> py_slice xs 0 n = take (nat n) xs"
  by (simp add: py_slice_def Let_def min_def)

lemma py_slice_nonneg:
  "0 \<le> a \<Longrightarrow> a \<le> b \<Longrightarrow> py_slice xs a b = take (nat (b - a)) (drop (nat a) xs)"
  by (auto simp: py_slice_def Let_def min_def)

lemma py_slice_tail:
  "9 \<le> length xs \<Longrightarrow> py_slice xs 8 (- 1) = take (length xs - 9) (drop 8 xs)"
  by (auto simp: py_slice_def Let_def min_def max_def nat_diff_distrib)

subsection \<open>Bit fields\<close>

lemma mask_31: "node_id_31bit_mask = mask 31"
  by (simp add: node_id_31bit_mask_def mask_eq_exp_minus_1)

lemma mask_2: "(3::i64) = mask 2"
  by (simp add: mask_eq_exp_minus_1)

lemma nat_bit_bound:
  assumes "n < 2 ^ m" and "bit (n::nat) i"
  shows "i < m"
proof -
  from assms(1) have "take_bit m n = n"
    by (simp add: take_bit_nat_eq_self_iff)
  with assms(2) have "bit (take_bit m n) i"
    by simp
  then show ?thesis
    by (simp add: bit_take_bit_iff)
qed

lemma value_key_pack:
  assumes "r < 2 ^ 31" and "v < 2 ^ 31"
  shows "node_value_key (pack k r v) = of_nat v"
  unfolding node_value_key_def pack_def mask_31
  by (rule bit_word_eqI) (auto simp: bit_simps dest: nat_bit_bound[OF assms(2)])

lemma key_pack:
  assumes "k < 2 ^ 2" and "r < 2 ^ 31" and "v < 2 ^ 31"
  shows "node_key (pack k r v) = of_nat r"
  unfolding node_key_def shifted_def pack_def mask_31
  by (rule bit_word_eqI)
     (auto simp: bit_simps dest: nat_bit_bound[OF assms(3)] nat_bit_bound[OF assms(2)])

lemma kind_pack:
  assumes "k < 2 ^ 2" and "r < 2 ^ 31" and "v < 2 ^ 31"
  shows "node_kind (pack k r v) = of_nat k"
  unfolding node_kind_def shifted_def pack_def mask_2 signed_drop_bit_signed_drop_bit
  by (rule bit_word_eqI)
     (auto simp: bit_simps dest: nat_bit_bound[OF assms(3)] nat_bit_bound[OF assms(2)]
        nat_bit_bound[OF assms(1)])

lemma unat_small: "n < 2 ^ 31 \<Longrightarrow> unat (of_nat n :: i64) = n"
  by (simp add: unat_of_nat)

text \<open>
  C1. Packing a kind in \<open>{0, 1, 2}\<close> and two keys below \<open>2^31\<close> into a word by the layout
  of the specification, and taking the word apart the way \<^verbatim>\<open>_get_quads\<close> does (the mask
  for the value key, the shift in place and the mask for the resource key, a second shift
  of the shifted word and the mask 3 for the kind), gives back the same three numbers.
\<close>

theorem bit_layout_round_trip:
  assumes "kind \<in> {0, 1, 2}" and "resource_key < 2 ^ 31" and "value_key < 2 ^ 31"
  shows "(unat (node_kind (pack kind resource_key value_key)),
          unat (node_key (pack kind resource_key value_key)),
          unat (node_value_key (pack kind resource_key value_key)))
         = (kind, resource_key, value_key)"
proof -
  from assms(1) have k: "kind < 2 ^ 2"
    by auto
  then have k31: "kind < 2 ^ 31"
    by simp
  show ?thesis
    using assms(2,3) k31
    by (simp add: kind_pack[OF k] key_pack[OF k] value_key_pack unat_small)
qed

theorem bit_layout_round_trip_witness:
  "(2::nat) \<in> {0, 1, 2} \<and> (5::nat) < 2 ^ 31 \<and> (7::nat) < 2 ^ 31 \<and>
   (unat (node_kind (pack 2 5 7)), unat (node_key (pack 2 5 7)),
    unat (node_value_key (pack 2 5 7))) = (2, 5, 7)"
  using bit_layout_round_trip [of 2 5 7] by simp

subsection \<open>One line for one row\<close>

lemma ex_get_g1: "get_string ex_dict 0 = Inr (str_of ''g1'')"
  by code_simp
lemma ex_get_ns: "get_string ex_dict 1 = Inr (str_of ''http://ex/'')"
  by code_simp
lemma ex_get_s: "get_string ex_dict 2 = Inr (str_of ''s'')"
  by code_simp
lemma ex_get_p: "get_string ex_dict 3 = Inr (str_of ''p'')"
  by code_simp
lemma ex_get_hello: "get_string ex_dict 4 = Inr (str_of ''hello'')"
  by code_simp

lemma ex_render_graph: "render_node ex_dict (pack 0 0 0) = Inr (str_of ''_:g1'')"
  by code_simp
lemma ex_render_subject: "render_node ex_dict (pack 1 1 2) = Inr (str_of ''<http://ex/s>'')"
  by code_simp
lemma ex_render_predicate: "render_node ex_dict (pack 1 1 3) = Inr (str_of ''<http://ex/p>'')"
  by code_simp
lemma ex_render_object:
  "render_node ex_dict (pack 2 0 4) = Inr ([0x22] @ str_of ''hello'' @ [0x22])"
  by code_simp

text \<open>
  C2. A row holds its slots in the column order graph, subject, predicate, object. When
  the four slots render, the line written for the row is the rendered subject, predicate,
  object and graph in that order, one space between them, then a space, a period and a
  newline.
\<close>

theorem quad_line_order:
  assumes "render_node ds graph = Inr g" and "render_node ds subject = Inr s"
    and "render_node ds predicate = Inr p" and "render_node ds object = Inr ob"
  shows "quad_line ds [graph, subject, predicate, object]
         = Inr (s @ str_of '' '' @ p @ str_of '' '' @ ob @ str_of '' '' @ g @ str_of '' .'' @ [10])"
  using assms by (simp add: quad_line_def)

theorem quad_line_order_witness:
  "render_node ex_dict (pack 0 0 0) = Inr (str_of ''_:g1'') \<and>
   render_node ex_dict (pack 1 1 2) = Inr (str_of ''<http://ex/s>'') \<and>
   render_node ex_dict (pack 1 1 3) = Inr (str_of ''<http://ex/p>'') \<and>
   render_node ex_dict (pack 2 0 4) = Inr ([0x22] @ str_of ''hello'' @ [0x22]) \<and>
   quad_line ex_dict [pack 0 0 0, pack 1 1 2, pack 1 1 3, pack 2 0 4]
     = Inr (str_of ''<http://ex/s> <http://ex/p> '' @ [0x22] @ str_of ''hello'' @ [0x22]
            @ str_of '' _:g1 .'' @ [10])"
  using quad_line_order [OF ex_render_graph ex_render_subject ex_render_predicate
      ex_render_object]
    ex_render_graph ex_render_subject ex_render_predicate ex_render_object
  by (simp add: str_of_def)

subsection \<open>The dictionary\<close>

lemma frombuffer0_start:
  "8 \<le> length xs \<Longrightarrow> frombuffer0 8 (py_slice xs 0 8) = Inr (take 8 xs)"
  by (auto simp: py_slice_prefix frombuffer0_def min_def)

lemma frombuffer0_count:
  "length xs = 13 + 4 * m \<Longrightarrow> frombuffer0 4 (py_slice xs 8 (- 1)) = Inr (take 4 (drop 8 xs))"
  by (auto simp: py_slice_tail frombuffer0_def min_def)

lemma get_string_direct:
  assumes "0 \<le> sint key" and "sint key < int (length (key_store ds))"
    and "key_store ds ! nat (sint key) \<noteq> []"
    and "0 < elem (key_dtype ds) (last (key_store ds ! nat (sint key)))"
  shows "get_string ds key =
         utf8_decode (take (nat (elem (key_dtype ds) (last (key_store ds ! nat (sint key)))))
                        (key_store ds ! nat (sint key)))"
  using assms by (simp add: get_string_def py_index_in_range py_slice_prefix Let_def)

lemma get_string_indirect:
  assumes "0 \<le> sint key" and "sint key < int (length (key_store ds))"
    and "\<not> 0 < elem (key_dtype ds) (last (key_store ds ! nat (sint key)))"
    and "length (key_store ds ! nat (sint key)) = 13 + 4 * m"
  shows "get_string ds key =
         utf8_decode
           (py_slice (str_store ds)
              (sint (be_word (take 8 (key_store ds ! nat (sint key))) :: i64))
              (sint ((be_word (take 8 (key_store ds ! nat (sint key))) :: i64)
                     + scast (be_word (take 4 (drop 8 (key_store ds ! nat (sint key)))) :: i32))))"
proof -
  let ?row = "key_store ds ! nat (sint key)"
  from assms(4) have ne: "?row \<noteq> []" and l8: "8 \<le> length ?row"
    by auto
  show ?thesis
    using assms(1-3) ne
    by (simp add: get_string_def py_index_in_range frombuffer0_start[OF l8]
        frombuffer0_count[OF assms(4)] Let_def)
qed

lemma sint_add_i64_i32:
  fixes a :: i64 and c :: i32
  assumes "0 \<le> sint a" and "0 \<le> sint c" and "sint a + sint c < 2 ^ 63"
  shows "sint (a + scast c) = sint a + sint c"
proof -
  have sc: "sint (scast c :: i64) = sint c"
    by (simp add: sint_up_scast is_up)
  have "sint (a + scast c) = signed_take_bit 63 (sint a + sint (scast c :: i64))"
    by (simp add: sint_word_ariths)
  also have "\<dots> = sint a + sint c"
    using assms by (simp add: sc signed_take_bit_int_eq_self)
  finally show ?thesis .
qed

lemma get_string_indirect_range:
  fixes off :: i64 and len :: i32
  assumes "0 \<le> sint key" and "sint key < int (length (key_store ds))"
    and "\<not> 0 < elem (key_dtype ds) (last (key_store ds ! nat (sint key)))"
    and "length (key_store ds ! nat (sint key)) = 13 + 4 * m"
    and "off = be_word (take 8 (key_store ds ! nat (sint key)))"
    and "len = be_word (take 4 (drop 8 (key_store ds ! nat (sint key))))"
    and "0 \<le> sint off" and "0 \<le> sint len" and "sint off + sint len < 2 ^ 63"
  shows "get_string ds key =
         utf8_decode (take (nat (sint len)) (drop (nat (sint off)) (str_store ds)))"
  using assms(5-9)
  by (simp add: get_string_indirect[OF assms(1-4)] sint_add_i64_i32 py_slice_nonneg)

text \<open>
  C3 (as amended). Let \<open>key\<close> be in range and \<open>n\<close> the last element of its row. If
  \<open>n > 0\<close> the result is the UTF-8 decoding of the first \<open>n\<close> bytes of the row. If
  \<open>n = 0\<close> and the row is 13, 17, 21, ... bytes wide, the offset \<open>off\<close> is read from
  the first 8 bytes and the length \<open>len\<close> from the 4 bytes after them, both big-endian
  and signed; when neither is negative and their sum is below \<open>2^63\<close>, the result is the
  UTF-8 decoding of the bytes of the store at positions \<open>off\<close> up to \<open>off + len\<close>.
\<close>

theorem get_string_dual_mode:
  fixes off :: i64 and len :: i32
  assumes "0 \<le> sint key" and "sint key < int (length (key_store ds))"
    and "row = key_store ds ! nat (sint key)" and "row \<noteq> []"
    and "n = elem (key_dtype ds) (last row)"
    and "off = be_word (take 8 row)" and "len = be_word (take 4 (drop 8 row))"
  shows "(0 < n \<longrightarrow> get_string ds key = utf8_decode (take (nat n) row)) \<and>
         (n = 0 \<and> length row = 13 + 4 * m
            \<and> 0 \<le> sint off \<and> 0 \<le> sint len \<and> sint off + sint len < 2 ^ 63 \<longrightarrow>
          get_string ds key =
            utf8_decode (take (nat (sint len)) (drop (nat (sint off)) (str_store ds))))"
proof (intro conjI impI)
  assume "0 < n"
  then show "get_string ds key = utf8_decode (take (nat n) row)"
    using assms(3-5) get_string_direct[OF assms(1,2)] by simp
next
  assume a: "n = 0 \<and> length row = 13 + 4 * m
            \<and> 0 \<le> sint off \<and> 0 \<le> sint len \<and> sint off + sint len < 2 ^ 63"
  then have m: "length (key_store ds ! nat (sint key)) = 13 + 4 * m"
    using assms(3) by simp
  from a assms(3,5) have ind: "\<not> 0 < elem (key_dtype ds) (last (key_store ds ! nat (sint key)))"
    by simp
  show "get_string ds key =
          utf8_decode (take (nat (sint len)) (drop (nat (sint off)) (str_store ds)))"
    using a assms(3,6,7)
    by (intro get_string_indirect_range[OF assms(1,2) ind m]) simp_all
qed

lemma frombuffer0_short:
  "xs \<noteq> [] \<Longrightarrow> length xs < 8 \<Longrightarrow> frombuffer0 8 (py_slice xs 0 8) = Inl ValueError"
  by (auto simp: py_slice_prefix frombuffer0_def)

lemma py_slice_tail_8: "length xs = 8 \<Longrightarrow> py_slice xs 8 (- 1) = []"
  by (simp add: py_slice_def Let_def)

lemma frombuffer0_count_bad:
  assumes "9 \<le> length xs" and "(int (length xs) - 9) mod 4 \<noteq> 0"
  shows "frombuffer0 4 (py_slice xs 8 (- 1)) = Inl ValueError"
proof -
  from assms have "(length xs - 9) mod 4 \<noteq> 0"
    by presburger
  with assms(1) show ?thesis
    by (simp add: py_slice_tail frombuffer0_def)
qed

lemma get_string_bad_width:
  assumes "0 \<le> sint key" and "sint key < int (length (key_store ds))"
    and "key_store ds ! nat (sint key) \<noteq> []"
    and "\<not> 0 < elem (key_dtype ds) (last (key_store ds ! nat (sint key)))"
    and "(int (length (key_store ds ! nat (sint key))) - 9) mod 4 \<noteq> 0"
  shows "get_string ds key = Inl ValueError \<or> get_string ds key = Inl IndexError"
proof -
  let ?row = "key_store ds ! nat (sint key)"
  consider "length ?row < 8" | "length ?row = 8" | "9 \<le> length ?row"
    by linarith
  then show ?thesis
  proof cases
    case 1
    then show ?thesis
      using assms(1-4)
      by (simp add: get_string_def py_index_in_range Let_def frombuffer0_short)
  next
    case 2
    then have c: "frombuffer0 4 (py_slice ?row 8 (- 1)) = Inl IndexError"
      by (simp add: py_slice_tail_8 frombuffer0_def)
    from 2 have s: "frombuffer0 8 (py_slice ?row 0 8) = Inr (take 8 ?row)"
      by (simp add: frombuffer0_start)
    show ?thesis
      using assms(1-4) by (simp add: get_string_def py_index_in_range Let_def s c)
  next
    case 3
    then have s: "frombuffer0 8 (py_slice ?row 0 8) = Inr (take 8 ?row)"
      by (simp add: frombuffer0_start)
    show ?thesis
      using assms(1-4)
      by (simp add: get_string_def py_index_in_range Let_def s
          frombuffer0_count_bad[OF 3 assms(5)])
  qed
qed

text \<open>
  C10. For an in-range key whose row ends in 0, the bytes between position 8 and the last
  byte are read as whole 4-byte items: if the width \<open>W\<close> of the row has \<open>(W - 9) mod 4\<close>
  other than 0 (as for \<open>W = 14\<close>) the lookup raises an error whatever the offset and the
  length are, so a lookup that returns has \<open>(W - 9) mod 4 = 0\<close>. A row that ends in
  \<open>n > 0\<close> is decoded from its first \<open>n\<close> bytes at every width.
\<close>

theorem key_row_width_constraint:
  assumes "0 \<le> sint key" and "sint key < int (length (key_store ds))"
    and "row = key_store ds ! nat (sint key)" and "row \<noteq> []"
    and "n = elem (key_dtype ds) (last row)"
  shows "(n = 0 \<and> (int (length row) - 9) mod 4 \<noteq> 0 \<longrightarrow>
            get_string ds key = Inl ValueError \<or> get_string ds key = Inl IndexError) \<and>
         (n = 0 \<and> get_string ds key = Inr s \<longrightarrow> (int (length row) - 9) mod 4 = 0) \<and>
         (0 < n \<longrightarrow> get_string ds key = utf8_decode (take (nat n) row))"
proof -
  have bad: "get_string ds key = Inl ValueError \<or> get_string ds key = Inl IndexError"
    if "n = 0" and "(int (length row) - 9) mod 4 \<noteq> 0"
    using that assms(3-5) get_string_bad_width[OF assms(1,2)] by simp
  have good: "(int (length row) - 9) mod 4 = 0" if "n = 0" and "get_string ds key = Inr s"
  proof (rule ccontr)
    assume "(int (length row) - 9) mod 4 \<noteq> 0"
    from bad[OF that(1) this] that(2) show False
      by simp
  qed
  have direct: "get_string ds key = utf8_decode (take (nat n) row)" if "0 < n"
    using that assms(3-5) get_string_direct[OF assms(1,2)] by simp
  from bad good direct show ?thesis
    by blast
qed

text \<open>
  C4 (as amended). For an indirect row (width 13, 17, 21, ...) whose offset and length are
  not negative, do not overflow, and reach beyond the end of the byte store, no error is
  raised for the range: the slice is clamped, and the result is the UTF-8 decoding of the
  bytes from the offset to the end of the store (no bytes when the offset is at or beyond
  the end).
\<close>

theorem indirect_out_of_bounds_clamped:
  fixes off :: i64 and len :: i32
  assumes "0 \<le> sint key" and "sint key < int (length (key_store ds))"
    and "row = key_store ds ! nat (sint key)"
    and "elem (key_dtype ds) (last row) = 0" and "length row = 13 + 4 * m"
    and "off = be_word (take 8 row)" and "len = be_word (take 4 (drop 8 row))"
    and "0 \<le> sint off" and "0 \<le> sint len" and "sint off + sint len < 2 ^ 63"
    and "int (length (str_store ds)) < sint off + sint len"
  shows "get_string ds key = utf8_decode (drop (nat (sint off)) (str_store ds))"
proof -
  have ind: "\<not> 0 < elem (key_dtype ds) (last (key_store ds ! nat (sint key)))"
    using assms(3,4) by simp
  have len: "length (key_store ds ! nat (sint key)) = 13 + 4 * m"
    using assms(3,5) by simp
  have "get_string ds key =
        utf8_decode (take (nat (sint len)) (drop (nat (sint off)) (str_store ds)))"
    using assms(3,6-10) by (intro get_string_indirect_range[OF assms(1,2) ind len]) simp_all
  moreover have "length (drop (nat (sint off)) (str_store ds)) \<le> nat (sint len)"
    using assms(8,9,11) by simp
  ultimately show ?thesis
    by simp
qed

subsection \<open>The dictionary on the examples\<close>

lemma ex_row0: "key_store ex_dict ! nat (sint (0::i64)) = direct_row 13 ''g1''"
  by (simp add: ex_dict_def)

lemma ex_row5:
  "key_store ex_dict ! nat (sint (5::i64)) = [0, 0, 0, 0, 0, 0, 0, 10, 0, 0, 0, 3, 0]"
  by (simp add: ex_dict_def)

lemma ex_row6:
  "key_store ex_dict ! nat (sint (6::i64)) = [0, 0, 0, 0, 0, 0, 0, 15, 0, 0, 0, 4, 0]"
  by (simp add: ex_dict_def)

lemma ex14_row0:
  "key_store ex_dict14 ! nat (sint (0::i64)) = [0, 0, 0, 0, 0, 0, 0, 10, 0, 0, 0, 3, 0, 0]"
  by (simp add: ex_dict14_def)

lemma ex14_row1: "key_store ex_dict14 ! nat (sint (1::i64)) = direct_row 14 ''foo''"
  by (simp add: ex_dict14_def)

theorem get_string_dual_mode_witness:
  "0 \<le> sint (0::i64) \<and> sint (0::i64) < int (length (key_store ex_dict)) \<and>
   direct_row 13 ''g1'' \<noteq> [] \<and>
   0 < elem (key_dtype ex_dict) (last (direct_row 13 ''g1'')) \<and>
   get_string ex_dict 0 = utf8_decode (take 2 (direct_row 13 ''g1'')) \<and>
   get_string ex_dict 0 = Inr (str_of ''g1'') \<and>
   0 \<le> sint (5::i64) \<and> sint (5::i64) < int (length (key_store ex_dict)) \<and>
   elem (key_dtype ex_dict) (last [0, 0, 0, 0, 0, 0, 0, 10, 0, 0, 0, 3, 0]) = 0 \<and>
   length [0, 0, 0, 0, 0, 0, 0, 10, 0, 0, 0, 3, 0 :: byte] = 13 + 4 * 0 \<and>
   (be_word (take 8 [0, 0, 0, 0, 0, 0, 0, 10, 0, 0, 0, 3, 0]) :: i64) = 10 \<and>
   (be_word (take 4 (drop 8 [0, 0, 0, 0, 0, 0, 0, 10, 0, 0, 0, 3, 0])) :: i32) = 3 \<and>
   0 \<le> sint (10::i64) \<and> 0 \<le> sint (3::i32) \<and> sint (10::i64) + sint (3::i32) < 2 ^ 63 \<and>
   get_string ex_dict 5 = utf8_decode (take 3 (drop 10 (str_store ex_dict))) \<and>
   get_string ex_dict 5 = Inr (str_of ''bar'')"
proof -
  have k0: "0 \<le> sint (0::i64)" and k5: "0 \<le> sint (5::i64)"
    by simp_all
  have r0: "sint (0::i64) < int (length (key_store ex_dict))"
    and r5: "sint (5::i64) < int (length (key_store ex_dict))"
    by code_simp+
  have ne: "direct_row 13 ''g1'' \<noteq> []"
    by code_simp
  have n0: "elem (key_dtype ex_dict) (last (direct_row 13 ''g1'')) = 2"
    by code_simp
  have n5: "elem (key_dtype ex_dict) (last [0, 0, 0, 0, 0, 0, 0, 10, 0, 0, 0, 3, 0]) = 0"
    by code_simp
  have off: "(be_word (take 8 [0, 0, 0, 0, 0, 0, 0, 10, 0, 0, 0, 3, 0]) :: i64) = 10"
    by code_simp
  have len: "(be_word (take 4 (drop 8 [0, 0, 0, 0, 0, 0, 0, 10, 0, 0, 0, 3, 0])) :: i32) = 3"
    by code_simp
  have v0: "utf8_decode (take 2 (direct_row 13 ''g1'')) = Inr (str_of ''g1'')"
    by code_simp
  have v5: "utf8_decode (take 3 (drop 10 (str_store ex_dict))) = Inr (str_of ''bar'')"
    by code_simp
  have d: "get_string ex_dict 0 = utf8_decode (take 2 (direct_row 13 ''g1''))"
    using get_string_dual_mode [OF k0 r0 ex_row0 [symmetric] ne n0 [symmetric] refl refl]
    by simp
  have i: "get_string ex_dict 5 = utf8_decode (take 3 (drop 10 (str_store ex_dict)))"
    using get_string_dual_mode [OF k5 r5 ex_row5 [symmetric] _ n5 [symmetric]
        off [symmetric] len [symmetric], of 0]
    by simp
  show ?thesis
    using k0 k5 r0 r5 ne n0 n5 off len d i v0 v5 by simp
qed

theorem get_string_width14_counterexample:
  "0 \<le> sint (0::i64) \<and> sint (0::i64) < int (length (key_store ex_dict14)) \<and>
   key_store ex_dict14 ! nat (sint (0::i64)) = [0, 0, 0, 0, 0, 0, 0, 10, 0, 0, 0, 3, 0, 0] \<and>
   elem (key_dtype ex_dict14) (last [0, 0, 0, 0, 0, 0, 0, 10, 0, 0, 0, 3, 0, 0]) = 0 \<and>
   utf8_decode (take 3 (drop 10 (str_store ex_dict14))) = Inr (str_of ''bar'') \<and>
   get_string ex_dict14 0 = Inl ValueError"
  by (intro conjI; code_simp)

theorem key_row_width_constraint_witness:
  "0 \<le> sint (0::i64) \<and> sint (0::i64) < int (length (key_store ex_dict14)) \<and>
   length [0, 0, 0, 0, 0, 0, 0, 10, 0, 0, 0, 3, 0, 0 :: byte] = 14 \<and>
   elem (key_dtype ex_dict14) (last [0, 0, 0, 0, 0, 0, 0, 10, 0, 0, 0, 3, 0, 0]) = 0 \<and>
   (int (length [0, 0, 0, 0, 0, 0, 0, 10, 0, 0, 0, 3, 0, 0 :: byte]) - 9) mod 4 \<noteq> 0 \<and>
   (get_string ex_dict14 0 = Inl ValueError \<or> get_string ex_dict14 0 = Inl IndexError) \<and>
   0 \<le> sint (1::i64) \<and> sint (1::i64) < int (length (key_store ex_dict14)) \<and>
   0 < elem (key_dtype ex_dict14) (last (direct_row 14 ''foo'')) \<and>
   get_string ex_dict14 1 = utf8_decode (take 3 (direct_row 14 ''foo'')) \<and>
   get_string ex_dict14 1 = Inr (str_of ''foo'') \<and>
   0 \<le> sint (5::i64) \<and> sint (5::i64) < int (length (key_store ex_dict)) \<and>
   elem (key_dtype ex_dict) (last [0, 0, 0, 0, 0, 0, 0, 10, 0, 0, 0, 3, 0]) = 0 \<and>
   get_string ex_dict 5 = Inr (str_of ''bar'') \<and>
   (int (length [0, 0, 0, 0, 0, 0, 0, 10, 0, 0, 0, 3, 0 :: byte]) - 9) mod 4 = 0"
proof -
  have k0: "0 \<le> sint (0::i64)" and k1: "0 \<le> sint (1::i64)" and k5: "0 \<le> sint (5::i64)"
    by simp_all
  have r0: "sint (0::i64) < int (length (key_store ex_dict14))"
    and r1: "sint (1::i64) < int (length (key_store ex_dict14))"
    and r5: "sint (5::i64) < int (length (key_store ex_dict))"
    by code_simp+
  have n0: "elem (key_dtype ex_dict14) (last [0, 0, 0, 0, 0, 0, 0, 10, 0, 0, 0, 3, 0, 0]) = 0"
    by code_simp
  have n1: "elem (key_dtype ex_dict14) (last (direct_row 14 ''foo'')) = 3"
    by code_simp
  have n5: "elem (key_dtype ex_dict) (last [0, 0, 0, 0, 0, 0, 0, 10, 0, 0, 0, 3, 0]) = 0"
    by code_simp
  have ne1: "direct_row 14 ''foo'' \<noteq> []"
    by code_simp
  have v1: "utf8_decode (take 3 (direct_row 14 ''foo'')) = Inr (str_of ''foo'')"
    by code_simp
  have g5: "get_string ex_dict 5 = Inr (str_of ''bar'')"
    by code_simp
  have bad: "get_string ex_dict14 0 = Inl ValueError \<or> get_string ex_dict14 0 = Inl IndexError"
    using key_row_width_constraint [OF k0 r0 ex14_row0 [symmetric] _ n0 [symmetric]]
    by simp
  have direct: "get_string ex_dict14 1 = utf8_decode (take 3 (direct_row 14 ''foo''))"
    using key_row_width_constraint [OF k1 r1 ex14_row1 [symmetric] ne1 n1 [symmetric]]
    by simp
  have good: "(int (length [0, 0, 0, 0, 0, 0, 0, 10, 0, 0, 0, 3, 0 :: byte]) - 9) mod 4 = 0"
    using key_row_width_constraint [OF k5 r5 ex_row5 [symmetric] _ n5 [symmetric],
        of "str_of ''bar''"] g5
    by simp
  show ?thesis
    using k0 k1 k5 r0 r1 r5 n0 n1 n5 v1 g5 bad direct good by simp
qed

theorem indirect_out_of_bounds_counterexample:
  "0 \<le> sint (6::i64) \<and> sint (6::i64) < int (length (key_store ex_dict)) \<and>
   key_store ex_dict ! nat (sint (6::i64)) = [0, 0, 0, 0, 0, 0, 0, 15, 0, 0, 0, 4, 0] \<and>
   elem (key_dtype ex_dict) (last [0, 0, 0, 0, 0, 0, 0, 15, 0, 0, 0, 4, 0]) = 0 \<and>
   sint (be_word (take 8 [0, 0, 0, 0, 0, 0, 0, 15, 0, 0, 0, 4, 0]) :: i64) = 15 \<and>
   sint (be_word (take 4 (drop 8 [0, 0, 0, 0, 0, 0, 0, 15, 0, 0, 0, 4, 0])) :: i32) = 4 \<and>
   length (str_store ex_dict) = 17 \<and>
   get_string ex_dict 6 = Inr (str_of ''xx'')"
  by (intro conjI; code_simp)

theorem indirect_out_of_bounds_clamped_witness:
  "0 \<le> sint (6::i64) \<and> sint (6::i64) < int (length (key_store ex_dict)) \<and>
   elem (key_dtype ex_dict) (last [0, 0, 0, 0, 0, 0, 0, 15, 0, 0, 0, 4, 0]) = 0 \<and>
   length [0, 0, 0, 0, 0, 0, 0, 15, 0, 0, 0, 4, 0 :: byte] = 13 + 4 * 0 \<and>
   (be_word (take 8 [0, 0, 0, 0, 0, 0, 0, 15, 0, 0, 0, 4, 0]) :: i64) = 15 \<and>
   (be_word (take 4 (drop 8 [0, 0, 0, 0, 0, 0, 0, 15, 0, 0, 0, 4, 0])) :: i32) = 4 \<and>
   0 \<le> sint (15::i64) \<and> 0 \<le> sint (4::i32) \<and> sint (15::i64) + sint (4::i32) < 2 ^ 63 \<and>
   int (length (str_store ex_dict)) < sint (15::i64) + sint (4::i32) \<and>
   get_string ex_dict 6 = utf8_decode (drop 15 (str_store ex_dict)) \<and>
   utf8_decode (drop 15 (str_store ex_dict)) = Inr (str_of ''xx'')"
proof -
  have k: "0 \<le> sint (6::i64)"
    by simp
  have r: "sint (6::i64) < int (length (key_store ex_dict))"
    by code_simp
  have n: "elem (key_dtype ex_dict) (last [0, 0, 0, 0, 0, 0, 0, 15, 0, 0, 0, 4, 0]) = 0"
    by code_simp
  have off: "(be_word (take 8 [0, 0, 0, 0, 0, 0, 0, 15, 0, 0, 0, 4, 0]) :: i64) = 15"
    by code_simp
  have len: "(be_word (take 4 (drop 8 [0, 0, 0, 0, 0, 0, 0, 15, 0, 0, 0, 4, 0])) :: i32) = 4"
    by code_simp
  have l: "length (str_store ex_dict) = 17"
    by code_simp
  have v: "utf8_decode (drop 15 (str_store ex_dict)) = Inr (str_of ''xx'')"
    by code_simp
  have "get_string ex_dict 6 = utf8_decode (drop (nat (sint (15::i64))) (str_store ex_dict))"
    using l
    by (intro indirect_out_of_bounds_clamped [OF k r ex_row6 [symmetric] n _
          off [symmetric] len [symmetric], of 0]) simp_all
  then have g: "get_string ex_dict 6 = utf8_decode (drop 15 (str_store ex_dict))"
    by simp
  show ?thesis
    using k r n off len l v g by simp
qed

subsection \<open>Literals\<close>

lemma replace_append: "replace old new (xs @ ys) = replace old new xs @ replace old new ys"
  by (simp add: replace_def)

lemma replace_Nil: "replace old new [] = []"
  by (simp add: replace_def)

lemma escape_append: "escape (xs @ ys) = escape xs @ escape ys"
  by (simp add: escape_def replace_append)

lemma escape_Nil: "escape [] = []"
  by (simp add: escape_def replace_Nil)

lemma escape_single: "escape [c] = escape_char c"
  by (simp add: escape_def replace_def escape_char_def str_of_def)

lemma escape_chars: "escape v = concat (map escape_char v)"
proof (induction v)
  case Nil
  show ?case
    by (simp add: escape_Nil)
next
  case (Cons c cs)
  have "escape (c # cs) = escape ([c] @ cs)"
    by simp
  also have "\<dots> = escape_char c @ escape cs"
    by (simp only: escape_append escape_single)
  finally show ?case
    using Cons.IH by simp
qed

lemma escape_in_order_eq: "escape_in_order v = escape v"
  by (simp add: escape_in_order_def escape_table_def escape_def str_of_def)

text \<open>
  C6. The rendered literal is the double-quoted value after the seven substitutions of the
  specification applied in its order (double quote, single quote, tab, newline, carriage
  return, backspace, form feed, each to a backslash and a character). That is every
  character replaced on its own, and a backslash of the value stays as it is.
\<close>

theorem literal_escaping:
  assumes "get_string ds val_key = Inr v" and "literal_node ds res_key val_key = Inr out"
  shows "take (length (escape_in_order v) + 2) out = [0x22] @ escape_in_order v @ [0x22] \<and>
         escape_in_order v = concat (map escape_char v) \<and>
         escape_char 0x5C = [0x5C]"
proof -
  have "take (length (escape v) + 2) out = [0x22] @ escape v @ [0x22]"
    using assms by (auto simp: literal_node_def split: if_splits sum.splits)
  then show ?thesis
    by (simp add: escape_in_order_eq escape_chars escape_char_def)
qed

text \<open>The dispatch on the kind.\<close>

lemma render_node_kind:
  "node_kind w = 0 \<Longrightarrow> render_node ds w = blank_node ds (node_key w) (node_value_key w)"
  "node_kind w = 1 \<Longrightarrow> render_node ds w = resource_node ds (node_key w) (node_value_key w)"
  "node_kind w = 2 \<Longrightarrow> render_node ds w = literal_node ds (node_key w) (node_value_key w)"
  "node_kind w = 3 \<Longrightarrow> render_node ds w = Inl IndexError"
  by (simp_all add: render_node_def template_def py_index_def)

text \<open>
  C8. For a slot of kind 2 whose value key resolves: with a resource key of 0 the
  rendered node is the escaped value in double quotes and nothing else; with another
  resource key that resolves, it is the quoted escaped value followed by \<open>^^<\<close>, the
  resolved resource key and \<open>>\<close>.
\<close>

theorem untyped_literal_sentinel:
  assumes "node_kind w = 2" and "get_string ds (node_value_key w) = Inr v"
  shows "(node_key w = 0 \<longrightarrow> render_node ds w = Inr ([0x22] @ escape v @ [0x22])) \<and>
         (node_key w \<noteq> 0 \<and> get_string ds (node_key w) = Inr res \<longrightarrow>
            render_node ds w
              = Inr ([0x22] @ escape v @ [0x22] @ str_of ''^^<'' @ res @ str_of ''>''))"
  using assms by (simp add: render_node_kind literal_node_def)

subsection \<open>Tables and the destination\<close>




text \<open>
  C7, at the empty string. Key 7 of the example dictionary resolves to the empty string
  (an indirect row of length 0); \<^verbatim>\<open>_blank_node\<close> then raises \<^verbatim>\<open>IndexError\<close> at
  \<^verbatim>\<open>val[0]\<close> where the claim has \<open>_:\<close> as the result, and so does the rendering of a
  slot of kind 0 with that value key.
\<close>

theorem blank_node_empty_string:
  "get_string ex_dict 7 = Inr [] \<and> blank_node ex_dict 0 7 = Inl IndexError \<and>
   node_kind (pack 0 0 7) = 0 \<and> node_value_key (pack 0 0 7) = 7 \<and>
   render_node ex_dict (pack 0 0 7) = Inl IndexError"
  by (intro conjI; code_simp)

text \<open>For every other string the node is as the claim has it.\<close>

lemma blank_node_nonempty:
  assumes "get_string ds val_key = Inr (c # cs)"
  shows "blank_node ds res_key val_key
         = Inr (str_of ''_:'' @ (if c = of_char CHR ''-'' then cs else c # cs))"
  using assms by (simp add: blank_node_def)

text \<open>
  C5, where the table has an invalid row. The table has two rows, the second flagged
  invalid, and a \<open>size\<close> of 2: one valid row, fewer than \<open>size\<close>. The loop runs over the
  row count of the unfiltered table, so after the line of the valid row it indexes row 1 of
  the one-row filtered array and raises \<^verbatim>\<open>IndexError\<close>; it does not stop early.
\<close>

theorem get_quads_short_table:
  "filter_quads (rows ex_table_short) = Inr [ex_quad] \<and>
   length (rows ex_table_short) = 2 \<and> size_attr ex_table_short = 2 \<and>
   get_quads ex_dict ex_table_short [] = (ex_line, Inl IndexError)"
  by (intro conjI; code_simp)

text \<open>
  The loop in general, for a filtered array all of whose rows can be written (\<open>f\<close> gives
  the bytes of the line of a row). With \<open>n\<close> rows in the table, the loop asks for the
  rows below \<open>min n size\<close>: if the filtered array has that many, their lines are written
  and the loop ends; if it has fewer, the lines of all its rows are written and the next
  index raises \<^verbatim>\<open>IndexError\<close>. The filtered array is shorter than the table as soon as
  one row is invalid.
\<close>

lemma quads_loop_rows:
  assumes ok: "\<And>r. r \<in> set quads \<Longrightarrow>
                 \<exists>line. quad_line ds r = Inr line \<and> utf8_encode line = Inr (f r)"
    and "i \<le> n"
  shows "(nat (min (int n) good) \<le> length quads \<longrightarrow>
            quads_loop ds good quads [i..<n] store =
            (store @ concat (map f (take (nat (min (int n) good) - i) (drop i quads))), Inr ())) \<and>
         (length quads < nat (min (int n) good) \<and> i \<le> length quads \<longrightarrow>
            quads_loop ds good quads [i..<n] store =
            (store @ concat (map f (drop i quads)), Inl IndexError))"
  using assms(2)
proof (induction "n - i" arbitrary: i store)
  case 0
  then have "[i..<n] = []" and "nat (min (int n) good) - i = 0"
    by auto
  then show ?case
    using 0 by auto
next
  case (Suc d)
  then have lt: "i < n"
    by simp
  then have upt: "[i..<n] = i # [Suc i..<n]"
    by (simp add: upt_conv_Cons)
  show ?case
  proof (cases "int i \<ge> good")
    case True
    then have "nat (min (int n) good) - i = 0"
      by auto
    moreover from True have "nat (min (int n) good) \<le> i"
      by auto
    ultimately show ?thesis
      using True by (auto simp: upt)
  next
    case False
    then have iL: "i < nat (min (int n) good)"
      using lt by auto
    show ?thesis
    proof (cases "i < length quads")
      case oob: False
      then have "py_index (length quads) (int i) = Inl IndexError"
        by (simp add: py_index_def)
      then have "quads_loop ds good quads [i..<n] store = (store, Inl IndexError)"
        using False by (simp add: upt)
      then show ?thesis
        using oob iL by auto
    next
      case True
      then have idx: "py_index (length quads) (int i) = Inr i"
        by (simp add: py_index_def)
      from True have "quads ! i \<in> set quads"
        by simp
      from ok[OF this] obtain line where
        line: "quad_line ds (quads ! i) = Inr line" "utf8_encode line = Inr (f (quads ! i))"
        by blast
      have step: "quads_loop ds good quads [i..<n] store =
                  quads_loop ds good quads [Suc i..<n] (store @ f (quads ! i))"
        using False by (simp add: upt idx line)
      have d: "d = n - Suc i" and le: "Suc i \<le> n"
        using Suc.hyps(2) lt by auto
      note ih = Suc.hyps(1)[OF d le, of "store @ f (quads ! i)"]
      have dr: "drop i quads = quads ! i # drop (Suc i) quads"
        using True by (simp add: Cons_nth_drop_Suc)
      have "nat (min (int n) good) - i = Suc (nat (min (int n) good) - Suc i)"
        using iL by simp
      then have tk: "take (nat (min (int n) good) - i) (drop i quads)
                = quads ! i # take (nat (min (int n) good) - Suc i) (drop (Suc i) quads)"
        by (simp only: dr take_Suc_Cons)
      have a: "concat (map f (take (nat (min (int n) good) - i) (drop i quads)))
               = f (quads ! i) @ concat (map f (take (nat (min (int n) good) - Suc i)
                                                  (drop (Suc i) quads)))"
        by (simp only: tk list.map concat.simps)
      have b: "concat (map f (drop i quads)) = f (quads ! i) @ concat (map f (drop (Suc i) quads))"
        by (simp only: dr list.map concat.simps)
      from True have sle: "Suc i \<le> length quads"
        by simp
      show ?thesis
        using ih sle by (simp only: step a b append_assoc) simp
    qed
  qed
qed

lemma get_quads_rows:
  assumes "filter_quads (rows tbl) = Inr quads"
    and "\<And>r. r \<in> set quads \<Longrightarrow>
           \<exists>line. quad_line ds r = Inr line \<and> utf8_encode line = Inr (f r)"
  shows "(nat (min (int (length (rows tbl))) (size_attr tbl)) \<le> length quads \<longrightarrow>
            get_quads ds tbl store =
            (store @ concat (map f (take (nat (size_attr tbl)) quads)), Inr ())) \<and>
         (length quads < nat (min (int (length (rows tbl))) (size_attr tbl)) \<longrightarrow>
            get_quads ds tbl store = (store @ concat (map f quads), Inl IndexError))"
proof -
  have len: "length quads \<le> length (rows tbl)"
    using assms(1)
    by (auto simp: filter_quads_def split: if_splits intro: le_trans[OF length_filter_le])
  have tk: "take (nat (min (int (length (rows tbl))) (size_attr tbl))) quads
            = take (nat (size_attr tbl)) quads"
    using len by (cases "size_attr tbl \<le> int (length (rows tbl))") (simp_all add: min_def)
  show ?thesis
    using quads_loop_rows[of quads ds f 0 "length (rows tbl)" "size_attr tbl" store, OF assms(2)]
    by (simp add: get_quads_def assms(1) Let_def tk)
qed

subsection \<open>What the strict decoder accepts\<close>

text \<open>
  Whatever \<open>utf8_decode\<close> returns encodes back to the bytes it was given, so bytes that
  are the UTF-8 encoding of no string are rejected; and \<^verbatim>\<open>UnicodeDecodeError\<close> is the
  only error of the decoder.
\<close>

lemma decomp:
  fixes a :: nat
  assumes "q * m \<le> a" and "a < q * m + m"
  shows "a div m = q \<and> a mod m = a - q * m"
proof -
  obtain k where k: "a = q * m + k" "k < m"
    using assms by (metis add_diff_cancel_left' le_add_diff_inverse nat_add_left_cancel_less)
  then show ?thesis
    by simp
qed

lemma two_bytes:
  fixes a b :: nat
  assumes "194 \<le> a" "a \<le> 223" "128 \<le> b" "b \<le> 191"
  shows "\<not> a mod 32 * 64 + b mod 64 < 128 \<and> a mod 32 * 64 + b mod 64 < 2048 \<and>
         192 + (a mod 32 * 64 + b mod 64) div 64 = a \<and>
         128 + (a mod 32 * 64 + b mod 64) mod 64 = b"
proof -
  define k where "k = a - 192"
  define j where "j = b - 128"
  have ak: "192 + k = a" and k: "2 \<le> k" "k < 32"
    using assms by (simp_all add: k_def)
  have bj: "128 + j = b" and j: "j < 64"
    using assms by (simp_all add: j_def)
  have a: "a mod 32 = k"
    using decomp[of 6 32 a] assms by (simp add: k_def)
  have b: "b mod 64 = j"
    using decomp[of 2 64 b] assms by (simp add: j_def)
  have c: "a mod 32 * 64 + b mod 64 = k * 64 + j"
    by (simp only: a b)
  have d: "(k * 64 + j) div 64 = k" "(k * 64 + j) mod 64 = j"
    using j by simp_all
  show ?thesis
    unfolding c d ak bj using k j by simp
qed

lemma three_bytes:
  fixes a b c :: nat
  assumes "224 \<le> a" "a \<le> 239" "(if a = 224 then 160 else 128) \<le> b"
    "b \<le> (if a = 237 then 159 else 191)" "128 \<le> c" "c \<le> 191"
  shows "\<not> a mod 16 * 4096 + b mod 64 * 64 + c mod 64 < 2048 \<and>
         \<not> (55296 \<le> a mod 16 * 4096 + b mod 64 * 64 + c mod 64 \<and>
            a mod 16 * 4096 + b mod 64 * 64 + c mod 64 \<le> 57343) \<and>
         a mod 16 * 4096 + b mod 64 * 64 + c mod 64 < 65536 \<and>
         224 + (a mod 16 * 4096 + b mod 64 * 64 + c mod 64) div 4096 = a \<and>
         128 + (a mod 16 * 4096 + b mod 64 * 64 + c mod 64) div 64 mod 64 = b \<and>
         128 + (a mod 16 * 4096 + b mod 64 * 64 + c mod 64) mod 64 = c"
proof -
  define k where "k = a - 224"
  define j where "j = b - 128"
  define i where "i = c - 128"
  have b128: "128 \<le> b" "b \<le> 191"
    using assms(3,4) by (simp_all split: if_splits)
  have ak: "224 + k = a" and k: "k < 16"
    using assms by (simp_all add: k_def)
  have bj: "128 + j = b" and j: "j < 64"
    using b128 by (simp_all add: j_def)
  have ci: "128 + i = c" and i: "i < 64"
    using assms by (simp_all add: i_def)
  have k0: "k = 0 \<Longrightarrow> 32 \<le> j"
    using assms(3) ak bj by (simp split: if_splits)
  have k13: "k = 13 \<Longrightarrow> j < 32"
    using assms(4) ak bj by (simp split: if_splits)
  have a: "a mod 16 = k"
    using decomp[of 14 16 a] assms by (simp add: k_def)
  have b: "b mod 64 = j"
    using decomp[of 2 64 b] b128 by (simp add: j_def)
  have c: "c mod 64 = i"
    using decomp[of 2 64 c] assms by (simp add: i_def)
  have e: "a mod 16 * 4096 + b mod 64 * 64 + c mod 64 = k * 4096 + j * 64 + i"
    by (simp only: a b c)
  have d1: "(k * 4096 + j * 64 + i) div 4096 = k"
    using decomp[of k 4096 "k * 4096 + j * 64 + i"] i j by simp
  have d2: "(k * 4096 + j * 64 + i) div 64 = k * 64 + j"
    using decomp[of "k * 64 + j" 64 "k * 4096 + j * 64 + i"] i by simp
  have d3: "(k * 64 + j) mod 64 = j"
    using j by simp
  have d4: "(k * 4096 + j * 64 + i) mod 64 = i"
    using decomp[of "k * 64 + j" 64 "k * 4096 + j * 64 + i"] i by simp
  have lo: "2048 \<le> k * 4096 + j * 64 + i"
    using k0 by (cases "k = 0") simp_all
  have sur: "\<not> (55296 \<le> k * 4096 + j * 64 + i \<and> k * 4096 + j * 64 + i \<le> 57343)"
  proof (cases "k = 13")
    case True
    then show ?thesis
      using k13 i by simp
  next
    case False
    then have "k < 13 \<or> 14 \<le> k"
      by arith
    then show ?thesis
      using i j by auto
  qed
  have hi: "k * 4096 + j * 64 + i < 65536"
    using k i j by simp
  show ?thesis
    unfolding e d1 d2 d3 d4 ak bj ci using lo sur hi by simp
qed

lemma four_bytes:
  fixes a b c d :: nat
  assumes "240 \<le> a" "a \<le> 244" "(if a = 240 then 144 else 128) \<le> b"
    "b \<le> (if a = 244 then 143 else 191)" "128 \<le> c" "c \<le> 191" "128 \<le> d" "d \<le> 191"
  shows "\<not> a mod 8 * 262144 + b mod 64 * 4096 + c mod 64 * 64 + d mod 64 < 65536 \<and>
         a mod 8 * 262144 + b mod 64 * 4096 + c mod 64 * 64 + d mod 64 < 1114112 \<and>
         240 + (a mod 8 * 262144 + b mod 64 * 4096 + c mod 64 * 64 + d mod 64) div 262144 = a \<and>
         128 + (a mod 8 * 262144 + b mod 64 * 4096 + c mod 64 * 64 + d mod 64) div 4096 mod 64 = b \<and>
         128 + (a mod 8 * 262144 + b mod 64 * 4096 + c mod 64 * 64 + d mod 64) div 64 mod 64 = c \<and>
         128 + (a mod 8 * 262144 + b mod 64 * 4096 + c mod 64 * 64 + d mod 64) mod 64 = d"
proof -
  define k where "k = a - 240"
  define j where "j = b - 128"
  define i where "i = c - 128"
  define h where "h = d - 128"
  have b128: "128 \<le> b" "b \<le> 191"
    using assms(3,4) by (simp_all split: if_splits)
  have ak: "240 + k = a" and k: "k < 5"
    using assms by (simp_all add: k_def)
  have bj: "128 + j = b" and j: "j < 64"
    using b128 by (simp_all add: j_def)
  have ci: "128 + i = c" and i: "i < 64"
    using assms by (simp_all add: i_def)
  have dh: "128 + h = d" and h: "h < 64"
    using assms by (simp_all add: h_def)
  have k0: "k = 0 \<Longrightarrow> 16 \<le> j"
    using assms(3) ak bj by (simp split: if_splits)
  have k4: "k = 4 \<Longrightarrow> j < 16"
    using assms(4) ak bj by (simp split: if_splits)
  have a: "a mod 8 = k"
    using decomp[of 30 8 a] assms by (simp add: k_def)
  have b: "b mod 64 = j"
    using decomp[of 2 64 b] b128 by (simp add: j_def)
  have c: "c mod 64 = i"
    using decomp[of 2 64 c] assms by (simp add: i_def)
  have d: "d mod 64 = h"
    using decomp[of 2 64 d] assms by (simp add: h_def)
  let ?cp = "k * 262144 + j * 4096 + i * 64 + h"
  have e: "a mod 8 * 262144 + b mod 64 * 4096 + c mod 64 * 64 + d mod 64 = ?cp"
    by (simp only: a b c d)
  have d1: "?cp div 262144 = k"
    using decomp[of k 262144 ?cp] i j h by simp
  have d2: "?cp div 4096 = k * 64 + j"
    using decomp[of "k * 64 + j" 4096 ?cp] i h by simp
  have d3: "(k * 64 + j) mod 64 = j"
    using j by simp
  have d4: "?cp div 64 = (k * 64 + j) * 64 + i"
    using decomp[of "(k * 64 + j) * 64 + i" 64 ?cp] h by simp
  have d5: "((k * 64 + j) * 64 + i) mod 64 = i"
    using i by (simp only: mod_mult_self3 mod_less)
  have d6: "?cp mod 64 = h"
    using decomp[of "(k * 64 + j) * 64 + i" 64 ?cp] h by simp
  have lo: "65536 \<le> ?cp"
    using k0 by (cases "k = 0") simp_all
  have hi: "?cp < 1114112"
  proof (cases "k = 4")
    case True
    then show ?thesis
      using k4 i h by simp
  next
    case False
    then have "k \<le> 3"
      using k by simp
    then show ?thesis
      using i j h by simp
  qed
  show ?thesis
    unfolding e d1 d2 d3 d4 d5 d6 ak bj ci dh using lo hi by simp
qed

lemma encode_1: "unat (b0::byte) < 0x80 \<Longrightarrow> encode_cp (unat b0) = Inr [b0]"
  by (simp add: encode_cp_def)

lemma encode_2:
  fixes b0 b1 :: byte
  assumes "in_range b0 0xC2 0xDF" and "in_range b1 0x80 0xBF"
  shows "encode_cp (unat b0 mod 32 * 64 + cont_bits b1) = Inr [b0, b1]"
proof -
  have "194 \<le> unat b0" "unat b0 \<le> 223" "128 \<le> unat b1" "unat b1 \<le> 191"
    using assms by (simp_all add: in_range_def)
  from two_bytes[OF this] show ?thesis
    by (simp add: encode_cp_def cont_bits_def)
qed

lemma encode_3:
  fixes b0 b1 b2 :: byte
  assumes "in_range b0 0xE0 0xEF"
    and "in_range b1 (if unat b0 = 0xE0 then 0xA0 else 0x80) (if unat b0 = 0xED then 0x9F else 0xBF)"
    and "in_range b2 0x80 0xBF"
  shows "encode_cp (unat b0 mod 16 * 4096 + cont_bits b1 * 64 + cont_bits b2) = Inr [b0, b1, b2]"
proof -
  have "224 \<le> unat b0" "unat b0 \<le> 239"
    "(if unat b0 = 224 then 160 else 128) \<le> unat b1"
    "unat b1 \<le> (if unat b0 = 237 then 159 else 191)" "128 \<le> unat b2" "unat b2 \<le> 191"
    using assms by (simp_all add: in_range_def)
  from three_bytes[OF this] show ?thesis
    by (simp add: encode_cp_def cont_bits_def)
qed

lemma encode_4:
  fixes b0 b1 b2 b3 :: byte
  assumes "in_range b0 0xF0 0xF4"
    and "in_range b1 (if unat b0 = 0xF0 then 0x90 else 0x80) (if unat b0 = 0xF4 then 0x8F else 0xBF)"
    and "in_range b2 0x80 0xBF" and "in_range b3 0x80 0xBF"
  shows "encode_cp (unat b0 mod 8 * 262144 + cont_bits b1 * 4096 + cont_bits b2 * 64 + cont_bits b3)
         = Inr [b0, b1, b2, b3]"
proof -
  have "240 \<le> unat b0" "unat b0 \<le> 244"
    "(if unat b0 = 240 then 144 else 128) \<le> unat b1"
    "unat b1 \<le> (if unat b0 = 244 then 143 else 191)" "128 \<le> unat b2" "unat b2 \<le> 191"
    "128 \<le> unat b3" "unat b3 \<le> 191"
    using assms by (simp_all add: in_range_def)
  from four_bytes[OF this] show ?thesis
    by (simp add: encode_cp_def cont_bits_def)
qed

lemma prepend_Inr: "prepend c r = Inr s \<Longrightarrow> \<exists>t. r = Inr t \<and> s = c # t"
  by (cases r) (simp_all add: prepend_def)

lemma prepend_Inl: "prepend c r = Inl e \<Longrightarrow> r = Inl e"
  by (cases r) (simp_all add: prepend_def)

lemma utf8_encode_Cons:
  "encode_cp c = Inr bs \<Longrightarrow> utf8_encode t = Inr r \<Longrightarrow> utf8_encode (c # t) = Inr (bs @ r)"
  by simp

lemma dec_1:
  "unat b0 < 0x80 \<Longrightarrow> utf8_decode (b0 # bs) = prepend (unat b0) (utf8_decode bs)"
  by simp

lemma dec_2:
  assumes "\<not> unat b0 < 0x80" and "in_range b0 0xC2 0xDF"
  shows "utf8_decode [b0] = Inl UnicodeDecodeError"
    and "utf8_decode (b0 # b1 # r1) =
         (if in_range b1 0x80 0xBF
          then prepend (unat b0 mod 32 * 64 + cont_bits b1) (utf8_decode r1)
          else Inl UnicodeDecodeError)"
  using assms by simp_all

lemma dec_3:
  assumes "\<not> unat b0 < 0x80" and "\<not> in_range b0 0xC2 0xDF" and "in_range b0 0xE0 0xEF"
  shows "utf8_decode [b0] = Inl UnicodeDecodeError"
    and "utf8_decode [b0, b1] = Inl UnicodeDecodeError"
    and "utf8_decode (b0 # b1 # b2 # r2) =
         (if in_range b1 (if unat b0 = 0xE0 then 0xA0 else 0x80)
                         (if unat b0 = 0xED then 0x9F else 0xBF)
             \<and> in_range b2 0x80 0xBF
          then prepend (unat b0 mod 16 * 4096 + cont_bits b1 * 64 + cont_bits b2)
                 (utf8_decode r2)
          else Inl UnicodeDecodeError)"
  using assms by simp_all

lemma dec_4:
  assumes "\<not> unat b0 < 0x80" and "\<not> in_range b0 0xC2 0xDF" and "\<not> in_range b0 0xE0 0xEF"
    and "in_range b0 0xF0 0xF4"
  shows "utf8_decode [b0] = Inl UnicodeDecodeError"
    and "utf8_decode [b0, b1] = Inl UnicodeDecodeError"
    and "utf8_decode [b0, b1, b2] = Inl UnicodeDecodeError"
    and "utf8_decode (b0 # b1 # b2 # b3 # r3) =
         (if in_range b1 (if unat b0 = 0xF0 then 0x90 else 0x80)
                         (if unat b0 = 0xF4 then 0x8F else 0xBF)
             \<and> in_range b2 0x80 0xBF \<and> in_range b3 0x80 0xBF
          then prepend (unat b0 mod 8 * 262144 + cont_bits b1 * 4096
                        + cont_bits b2 * 64 + cont_bits b3)
                 (utf8_decode r3)
          else Inl UnicodeDecodeError)"
  using assms by simp_all

lemma dec_none:
  assumes "\<not> unat b0 < 0x80" and "\<not> in_range b0 0xC2 0xDF" and "\<not> in_range b0 0xE0 0xEF"
    and "\<not> in_range b0 0xF0 0xF4"
  shows "utf8_decode (b0 # bs) = Inl UnicodeDecodeError"
  using assms by simp

lemma utf8_decode_sound: "utf8_decode bs = Inr s \<Longrightarrow> utf8_encode s = Inr bs"
proof (induction bs arbitrary: s rule: length_induct)
  case (1 xs)
  note IH = "1.IH"[rule_format]
  show ?case
  proof (cases xs)
    case Nil
    with "1.prems" show ?thesis
      by simp
  next
    case (Cons b0 bs)
    note xs = Cons
    consider (one) "unat b0 < 0x80"
      | (two) "\<not> unat b0 < 0x80" "in_range b0 0xC2 0xDF"
      | (three) "\<not> unat b0 < 0x80" "\<not> in_range b0 0xC2 0xDF" "in_range b0 0xE0 0xEF"
      | (four) "\<not> unat b0 < 0x80" "\<not> in_range b0 0xC2 0xDF" "\<not> in_range b0 0xE0 0xEF"
          "in_range b0 0xF0 0xF4"
      | (none) "\<not> unat b0 < 0x80" "\<not> in_range b0 0xC2 0xDF" "\<not> in_range b0 0xE0 0xEF"
          "\<not> in_range b0 0xF0 0xF4"
      by blast
    then show ?thesis
    proof cases
      case one
      from "1.prems" have "prepend (unat b0) (utf8_decode bs) = Inr s"
        by (simp only: xs dec_1[OF one])
      then obtain t where t: "utf8_decode bs = Inr t" "s = unat b0 # t"
        using prepend_Inr by blast
      have "utf8_encode t = Inr bs"
        using IH[OF _ t(1)] xs by simp
      from utf8_encode_Cons[OF encode_1[OF one] this] show ?thesis
        by (simp only: t(2) xs append_Cons append_Nil)
    next
      case two
      show ?thesis
      proof (cases bs)
        case Nil
        with "1.prems" xs dec_2(1)[OF two] show ?thesis
          by simp
      next
        case (Cons b1 r1)
        from "1.prems" have d: "(if in_range b1 0x80 0xBF
              then prepend (unat b0 mod 32 * 64 + cont_bits b1) (utf8_decode r1)
              else Inl UnicodeDecodeError) = Inr s"
          by (simp only: xs Cons dec_2(2)[OF two])
        then have r: "in_range b1 0x80 0xBF"
          by (simp split: if_splits)
        with d have "prepend (unat b0 mod 32 * 64 + cont_bits b1) (utf8_decode r1) = Inr s"
          by simp
        then obtain t where t: "utf8_decode r1 = Inr t"
          "s = (unat b0 mod 32 * 64 + cont_bits b1) # t"
          using prepend_Inr by blast
        have "utf8_encode t = Inr r1"
          using IH[OF _ t(1)] xs Cons by simp
        from utf8_encode_Cons[OF encode_2[OF two(2) r] this] show ?thesis
          by (simp only: t(2) xs Cons append_Cons append_Nil)
      qed
    next
      case three
      show ?thesis
      proof (cases bs)
        case Nil
        with "1.prems" xs dec_3(1)[OF three] show ?thesis
          by simp
      next
        case c1: (Cons b1 bs1)
        show ?thesis
        proof (cases bs1)
          case Nil
          with "1.prems" xs c1 dec_3(2)[OF three] show ?thesis
            by simp
        next
          case (Cons b2 r2)
          let ?c = "unat b0 mod 16 * 4096 + cont_bits b1 * 64 + cont_bits b2"
          from "1.prems" have d: "(if in_range b1 (if unat b0 = 0xE0 then 0xA0 else 0x80)
                         (if unat b0 = 0xED then 0x9F else 0xBF) \<and> in_range b2 0x80 0xBF
                then prepend ?c (utf8_decode r2) else Inl UnicodeDecodeError) = Inr s"
            by (simp only: xs c1 Cons dec_3(3)[OF three])
          then have r: "in_range b1 (if unat b0 = 0xE0 then 0xA0 else 0x80)
                         (if unat b0 = 0xED then 0x9F else 0xBF)" "in_range b2 0x80 0xBF"
            by (simp_all split: if_splits)
          with d have "prepend ?c (utf8_decode r2) = Inr s"
            by simp
          then obtain t where t: "utf8_decode r2 = Inr t" "s = ?c # t"
            using prepend_Inr by blast
          have "utf8_encode t = Inr r2"
            using IH[OF _ t(1)] xs c1 Cons by simp
          from utf8_encode_Cons[OF encode_3[OF three(3) r] this] show ?thesis
            by (simp only: t(2) xs c1 Cons append_Cons append_Nil)
        qed
      qed
    next
      case four
      show ?thesis
      proof (cases bs)
        case Nil
        with "1.prems" xs dec_4(1)[OF four] show ?thesis
          by simp
      next
        case c1: (Cons b1 bs1)
        show ?thesis
        proof (cases bs1)
          case Nil
          with "1.prems" xs c1 dec_4(2)[OF four] show ?thesis
            by simp
        next
          case c2: (Cons b2 bs2)
          show ?thesis
          proof (cases bs2)
            case Nil
            with "1.prems" xs c1 c2 dec_4(3)[OF four] show ?thesis
              by simp
          next
            case (Cons b3 r3)
            let ?c = "unat b0 mod 8 * 262144 + cont_bits b1 * 4096 + cont_bits b2 * 64
                      + cont_bits b3"
            from "1.prems" have d: "(if in_range b1 (if unat b0 = 0xF0 then 0x90 else 0x80)
                           (if unat b0 = 0xF4 then 0x8F else 0xBF)
                     \<and> in_range b2 0x80 0xBF \<and> in_range b3 0x80 0xBF
                  then prepend ?c (utf8_decode r3) else Inl UnicodeDecodeError) = Inr s"
              by (simp only: xs c1 c2 Cons dec_4(4)[OF four])
            then have r: "in_range b1 (if unat b0 = 0xF0 then 0x90 else 0x80)
                           (if unat b0 = 0xF4 then 0x8F else 0xBF)"
              "in_range b2 0x80 0xBF" "in_range b3 0x80 0xBF"
              by (simp_all split: if_splits)
            with d have "prepend ?c (utf8_decode r3) = Inr s"
              by simp
            then obtain t where t: "utf8_decode r3 = Inr t" "s = ?c # t"
              using prepend_Inr by blast
            have "utf8_encode t = Inr r3"
              using IH[OF _ t(1)] xs c1 c2 Cons by simp
            from utf8_encode_Cons[OF encode_4[OF four(4) r] this] show ?thesis
              by (simp only: t(2) xs c1 c2 Cons append_Cons append_Nil)
          qed
        qed
      qed
    next
      case none
      with "1.prems" xs dec_none[OF none] show ?thesis
        by simp
    qed
  qed
qed

lemma utf8_decode_error: "utf8_decode bs = Inl e \<Longrightarrow> e = UnicodeDecodeError"
proof (induction bs rule: length_induct)
  case (1 xs)
  note IH = "1.IH"[rule_format]
  show ?case
  proof (cases xs)
    case Nil
    with "1.prems" show ?thesis
      by simp
  next
    case (Cons b0 bs)
    note xs = Cons
    consider (one) "unat b0 < 0x80"
      | (two) "\<not> unat b0 < 0x80" "in_range b0 0xC2 0xDF"
      | (three) "\<not> unat b0 < 0x80" "\<not> in_range b0 0xC2 0xDF" "in_range b0 0xE0 0xEF"
      | (four) "\<not> unat b0 < 0x80" "\<not> in_range b0 0xC2 0xDF" "\<not> in_range b0 0xE0 0xEF"
          "in_range b0 0xF0 0xF4"
      | (none) "\<not> unat b0 < 0x80" "\<not> in_range b0 0xC2 0xDF" "\<not> in_range b0 0xE0 0xEF"
          "\<not> in_range b0 0xF0 0xF4"
      by blast
    then show ?thesis
    proof cases
      case one
      from "1.prems" have "prepend (unat b0) (utf8_decode bs) = Inl e"
        by (simp only: xs dec_1[OF one])
      then have "utf8_decode bs = Inl e"
        by (rule prepend_Inl)
      then show ?thesis
        using IH[of bs] xs by simp
    next
      case two
      show ?thesis
      proof (cases bs)
        case Nil
        with "1.prems" xs dec_2(1)[OF two] show ?thesis
          by simp
      next
        case (Cons b1 r1)
        from "1.prems" have "(if in_range b1 0x80 0xBF
              then prepend (unat b0 mod 32 * 64 + cont_bits b1) (utf8_decode r1)
              else Inl UnicodeDecodeError) = Inl e"
          by (simp only: xs Cons dec_2(2)[OF two])
        then have "e = UnicodeDecodeError \<or> utf8_decode r1 = Inl e"
          by (auto split: if_splits dest: prepend_Inl)
        then show ?thesis
          using IH[of r1] xs Cons by auto
      qed
    next
      case three
      show ?thesis
      proof (cases bs)
        case Nil
        with "1.prems" xs dec_3(1)[OF three] show ?thesis
          by simp
      next
        case c1: (Cons b1 bs1)
        show ?thesis
        proof (cases bs1)
          case Nil
          with "1.prems" xs c1 dec_3(2)[OF three] show ?thesis
            by simp
        next
          case (Cons b2 r2)
          from "1.prems" have "(if in_range b1 (if unat b0 = 0xE0 then 0xA0 else 0x80)
                         (if unat b0 = 0xED then 0x9F else 0xBF) \<and> in_range b2 0x80 0xBF
                then prepend (unat b0 mod 16 * 4096 + cont_bits b1 * 64 + cont_bits b2)
                       (utf8_decode r2)
                else Inl UnicodeDecodeError) = Inl e"
            by (simp only: xs c1 Cons dec_3(3)[OF three])
          then have "e = UnicodeDecodeError \<or> utf8_decode r2 = Inl e"
            by (auto split: if_splits dest: prepend_Inl)
          then show ?thesis
            using IH[of r2] xs c1 Cons by auto
        qed
      qed
    next
      case four
      show ?thesis
      proof (cases bs)
        case Nil
        with "1.prems" xs dec_4(1)[OF four] show ?thesis
          by simp
      next
        case c1: (Cons b1 bs1)
        show ?thesis
        proof (cases bs1)
          case Nil
          with "1.prems" xs c1 dec_4(2)[OF four] show ?thesis
            by simp
        next
          case c2: (Cons b2 bs2)
          show ?thesis
          proof (cases bs2)
            case Nil
            with "1.prems" xs c1 c2 dec_4(3)[OF four] show ?thesis
              by simp
          next
            case (Cons b3 r3)
            from "1.prems" have "(if in_range b1 (if unat b0 = 0xF0 then 0x90 else 0x80)
                           (if unat b0 = 0xF4 then 0x8F else 0xBF)
                     \<and> in_range b2 0x80 0xBF \<and> in_range b3 0x80 0xBF
                  then prepend (unat b0 mod 8 * 262144 + cont_bits b1 * 4096
                                + cont_bits b2 * 64 + cont_bits b3) (utf8_decode r3)
                  else Inl UnicodeDecodeError) = Inl e"
              by (simp only: xs c1 c2 Cons dec_4(4)[OF four])
            then have "e = UnicodeDecodeError \<or> utf8_decode r3 = Inl e"
              by (auto split: if_splits dest: prepend_Inl)
            then show ?thesis
              using IH[of r3] xs c1 c2 Cons by auto
          qed
        qed
      qed
    next
      case none
      with "1.prems" xs dec_none[OF none] show ?thesis
        by simp
    qed
  qed
qed

lemma not_utf8_rejected:
  assumes "\<And>s. utf8_encode s \<noteq> Inr bs"
  shows "utf8_decode bs = Inl UnicodeDecodeError"
proof (cases "utf8_decode bs")
  case (Inl e)
  then show ?thesis
    using utf8_decode_error by blast
next
  case (Inr s)
  then show ?thesis
    using utf8_decode_sound assms by blast
qed

subsection \<open>Failures abort the decode\<close>




lemma not_utf8_invalid:
  assumes "key_bytes ds key = Inr bs" and "\<And>s. utf8_encode s \<noteq> Inr bs"
  shows "invalid_utf8 ds key"
  using assms(1) not_utf8_rejected[OF assms(2)] by (simp add: invalid_utf8_def)
















theorem literal_escaping_witness:
  "get_string ex_dict 9 = Inr [0x61, 0x22, 10, 0x5C] \<and>
   literal_node ex_dict 0 9 = Inr [0x22, 0x61, 0x5C, 0x22, 0x5C, 0x6E, 0x5C, 0x22] \<and>
   escape_in_order [0x61, 0x22, 10, 0x5C] = [0x61, 0x5C, 0x22, 0x5C, 0x6E, 0x5C] \<and>
   take (length (escape_in_order [0x61, 0x22, 10, 0x5C]) + 2)
        [0x22, 0x61, 0x5C, 0x22, 0x5C, 0x6E, 0x5C, 0x22]
     = [0x22] @ escape_in_order [0x61, 0x22, 10, 0x5C] @ [0x22] \<and>
   escape_in_order [0x61, 0x22, 10, 0x5C] = concat (map escape_char [0x61, 0x22, 10, 0x5C]) \<and>
   escape_char 0x5C = [0x5C]"
proof -
  have g: "get_string ex_dict 9 = Inr [0x61, 0x22, 10, 0x5C]"
    by code_simp
  have l: "literal_node ex_dict 0 9 = Inr [0x22, 0x61, 0x5C, 0x22, 0x5C, 0x6E, 0x5C, 0x22]"
    by code_simp
  have e: "escape_in_order [0x61, 0x22, 10, 0x5C] = [0x61, 0x5C, 0x22, 0x5C, 0x6E, 0x5C]"
    by code_simp
  show ?thesis
    using literal_escaping [OF g l] g l e by (simp add: escape_char_def)
qed

theorem untyped_literal_sentinel_witness:
  "node_kind (pack 2 0 4) = 2 \<and> node_key (pack 2 0 4) = 0 \<and>
   get_string ex_dict (node_value_key (pack 2 0 4)) = Inr (str_of ''hello'') \<and>
   render_node ex_dict (pack 2 0 4) = Inr ([0x22] @ escape (str_of ''hello'') @ [0x22]) \<and>
   node_kind (pack 2 1 4) = 2 \<and> node_key (pack 2 1 4) \<noteq> 0 \<and>
   get_string ex_dict (node_value_key (pack 2 1 4)) = Inr (str_of ''hello'') \<and>
   get_string ex_dict (node_key (pack 2 1 4)) = Inr (str_of ''http://ex/'') \<and>
   render_node ex_dict (pack 2 1 4)
     = Inr ([0x22] @ escape (str_of ''hello'') @ [0x22] @ str_of ''^^<'' @ str_of ''http://ex/''
            @ str_of ''>'') \<and>
   escape (str_of ''hello'') = str_of ''hello''"
proof -
  have k0: "node_kind (pack 2 0 4) = 2" and k1: "node_kind (pack 2 1 4) = 2"
    and r0: "node_key (pack 2 0 4) = 0" and r1: "node_key (pack 2 1 4) \<noteq> 0"
    and v0: "get_string ex_dict (node_value_key (pack 2 0 4)) = Inr (str_of ''hello'')"
    and v1: "get_string ex_dict (node_value_key (pack 2 1 4)) = Inr (str_of ''hello'')"
    and t1: "get_string ex_dict (node_key (pack 2 1 4)) = Inr (str_of ''http://ex/'')"
    and e: "escape (str_of ''hello'') = str_of ''hello''"
    by code_simp+
  show ?thesis
    using untyped_literal_sentinel [OF k0 v0, of "str_of ''http://ex/''"]
      untyped_literal_sentinel [OF k1 v1, of "str_of ''http://ex/''"] k0 k1 r0 r1 v0 v1 t1 e
    by simp
qed

end
